theory Spec2Isabelle
  imports Main "HOL-Library.Word" "HOL-Library.AList"
begin

section \<open>Break-in detection on an sshd log: the model of strauchm\_homework2.cpp\<close>

text \<open>
  The program reads an authentication log line by line and reports the lines that look
  like break-in attempts. This theory embeds the functions of the source that decide the
  classification of a line (\<open>isFlag\<close>, \<open>isAuth\<close>, \<open>isBand\<close>, \<open>checkLogHelper\<close>,
  \<open>checkLog\<close>, \<open>processHelper\<close>, \<open>process\<close>) and proves properties of them.

  Conventions of the embedding:
  \<^item> \<open>std::string\<close> is \<open>string\<close> (a list of bytes);
  \<^item> the \<open>size_t\<close> result of \<open>std::string::find\<close> is a \<open>nat option\<close>, \<open>None\<close>
    standing for \<open>npos\<close>, the value \<open>2 ^ 64 - 1\<close>; the narrowing of such a result to a
    32-bit \<open>int\<close> is written out with a word;
  \<^item> the \<open>long\<close> time stamps, the \<open>int\<close> counters and the \<open>unsigned int\<close> indices of
    the scan are \<open>int\<close>, \<open>int\<close> and \<open>nat\<close>: the time stamps are what \<open>mktime\<close>
    returns, the counters count lines, the indices stay below 5, and none comes near the
    width of its machine type;
  \<^item> \<open>std::unordered_map\<close> is an association list: a key is found with \<open>map_of\<close> and
    \<open>m[k] = v\<close> is \<open>AList.update k v m\<close>, which keeps the keys distinct; the order of
    the list stands for the order in which the table is iterated, which no result
    depends on;
  \<^item> the exception \<open>std::out_of_range\<close> thrown by \<open>std::string::substr\<close> is the value
    \<open>Inl OutOfRange\<close> of a sum type;
  \<^item> the input stream is the list of the lines that \<open>std::getline\<close> delivers, the output
    stream is the text written so far.
\<close>

subsection \<open>Strings\<close>

datatype error = OutOfRange

text \<open>\<open>s.find(pat)\<close>: the index of the first occurrence of \<open>pat\<close> in \<open>s\<close>, searched from
  index \<open>i\<close> of the whole string on; \<open>None\<close> is \<open>npos\<close>.\<close>

fun find_from :: "string \<Rightarrow> string \<Rightarrow> nat \<Rightarrow> nat option" where
  "find_from [] pat i = (if pat = [] then Some i else None)"
| "find_from (c # cs) pat i =
     (if take (length pat) (c # cs) = pat then Some i else find_from cs pat (Suc i))"

definition find :: "string \<Rightarrow> string \<Rightarrow> nat option" where
  "find s pat = find_from s pat 0"

text \<open>\<open>std::string::npos\<close>, which is \<open>2 ^ 64 - 1\<close>.\<close>

definition npos :: int where
  "npos = 18446744073709551615"

text \<open>\<open>int temp = line.find(...)\<close>: the \<open>size_t\<close> result is narrowed to a 32-bit signed
  \<open>int\<close>, which keeps the low 32 bits.\<close>

definition size_t_to_int :: "nat option \<Rightarrow> int" where
  "size_t_to_int r = sint (word_of_int (case r of None \<Rightarrow> npos | Some n \<Rightarrow> int n) :: 32 word)"

text \<open>An \<open>int\<close> passed where a \<open>size_t\<close> parameter is expected is converted modulo
  \<open>2 ^ 64\<close>.\<close>

definition int_to_size_t :: "int \<Rightarrow> nat" where
  "int_to_size_t z = nat (z mod 2 ^ 64)"

text \<open>\<open>s.substr(pos, n)\<close> throws \<open>std::out_of_range\<close> if \<open>pos > s.size()\<close> and returns
  the at most \<open>n\<close> characters from \<open>pos\<close> on otherwise.\<close>

definition substr :: "string \<Rightarrow> nat \<Rightarrow> nat \<Rightarrow> error + string" where
  "substr s pos n = (if pos > length s then Inl OutOfRange else Inr (take n (drop pos s)))"

subsection \<open>Lookup tables\<close>

type_synonym LookupMap = "(string \<times> bool) list"

type_synonym LoginTimes = "(string \<times> int list) list"

text \<open>\<open>isFlag\<close>: an unseen user is entered with the value \<open>false\<close>; the answer is the
  stored value of a user seen before.\<close>

definition isFlag :: "string \<Rightarrow> LookupMap \<Rightarrow> bool \<times> LookupMap" where
  "isFlag user flagged =
     (if map_of flagged user = None then (False, AList.update user False flagged)
      else if map_of flagged user \<noteq> None \<and> map_of flagged user = Some True
      then (True, flagged)
      else (False, flagged))"

text \<open>\<open>isAuth\<close> and \<open>isBand\<close>: some key of the table occurs in the line.\<close>

definition isAuth :: "string \<Rightarrow> LookupMap \<Rightarrow> bool" where
  "isAuth line authUser = list_ex (\<lambda>e. find line (fst e) \<noteq> None) authUser"

definition isBand :: "string \<Rightarrow> LookupMap \<Rightarrow> bool" where
  "isBand line banIP = list_ex (\<lambda>e. find line (fst e) \<noteq> None) banIP"

subsection \<open>Timestamps\<close>

text \<open>\<open>toSeconds\<close> fills a \<open>struct tm\<close> whose only set field is \<open>tm_year = year - 1900\<close>
  with \<open>strptime\<close> and converts it with \<open>mktime\<close>. Both belong to the C library and
  \<open>mktime\<close> reads the time zone of the process, so their composition is a parameter
  \<open>libc\<close> of the model: it maps \<open>tm_year\<close> and the text to the seconds. The rules of the
  program are proved for every \<open>libc\<close>; a model of the two library functions follows
  further down.\<close>

type_synonym clock = "int \<Rightarrow> string \<Rightarrow> int"

definition toSeconds :: "clock \<Rightarrow> string \<Rightarrow> int \<Rightarrow> int" where
  "toSeconds libc timestamp year = libc (year - 1900) timestamp"

subsection \<open>The frequency rule\<close>

text \<open>One pass of the body of the loop of \<open>checkLogHelper\<close> up to the test \<open>check > 2\<close>:
  the pair \<open>temp[i]\<close>, \<open>temp[i + 1]\<close> is examined if it exists.\<close>

definition scanPair ::
  "string \<Rightarrow> string \<Rightarrow> nat \<Rightarrow> int \<Rightarrow> int list \<Rightarrow> LoginTimes \<Rightarrow> int \<times> int list \<times> LoginTimes" where
  "scanPair line user i check temp log =
     (if i + 1 < length temp then
        (if \<bar>temp ! (i + 1) - temp ! i\<bar> < 20 \<and> find line ''Failed'' \<noteq> None
         then (check + 1, temp, log)
         else (0, [last temp], AList.update user [last temp] log))
      else (check, temp, log))"

function scanLoop ::
  "string \<Rightarrow> string \<Rightarrow> nat \<Rightarrow> int \<Rightarrow> int list \<Rightarrow> LoginTimes \<Rightarrow> bool \<times> LoginTimes" where
  "scanLoop line user i check temp log =
     (if i < length temp then
        (let r = scanPair line user i check temp log;
             check' = fst r; temp' = fst (snd r); log' = snd (snd r)
         in if check' > 2 then (True, AList.update user (tl temp') log')
            else scanLoop line user (i + 1) check' temp' log')
      else (False, log))"
  by pat_completeness auto
termination
  by (relation "measure (\<lambda>(line, user, i, check, temp, log). length temp - i)")
     (auto simp: scanPair_def split: if_splits)

definition checkLogHelper ::
  "int list \<Rightarrow> string \<Rightarrow> LoginTimes \<Rightarrow> string \<Rightarrow> bool \<times> LoginTimes" where
  "checkLogHelper temp line log user = scanLoop line user 0 0 temp log"

definition checkLog :: "clock \<Rightarrow> string \<Rightarrow> LoginTimes \<Rightarrow> string \<Rightarrow> bool \<times> LoginTimes" where
  "checkLog libc line log user =
     (let time = toSeconds libc (take 14 line) 2021 in
      case map_of log user of
        None \<Rightarrow> (False, AList.update user [time] log)
      | Some h \<Rightarrow>
          (let temp = h @ [time]; log1 = AList.update user temp log
           in if length temp < 3 then (False, log1)
              else checkLogHelper temp line log1 user))"

subsection \<open>Reporting\<close>

text \<open>\<open>os << n\<close> for an \<open>int\<close>: the decimal digits, after a minus sign if negative.\<close>

fun show_nat :: "nat \<Rightarrow> string" where
  "show_nat n =
     (if n < 10 then [char_of (48 + n)] else show_nat (n div 10) @ [char_of (48 + n mod 10)])"

definition show_int :: "int \<Rightarrow> string" where
  "show_int i = (if i < 0 then CHR ''-'' # show_nat (nat (- i)) else show_nat (nat i))"

text \<open>\<open>processHelper\<close> writes the message selected by \<open>reason\<close> and returns 1; the
  result is the stream after the write, and the 1.\<close>

definition processHelper :: "string \<Rightarrow> int \<Rightarrow> string \<Rightarrow> int \<Rightarrow> int \<Rightarrow> string \<times> int" where
  "processHelper os reason line hackAtt lineCount =
     (if reason = 1 then
        (os @ ''Hacking due to banned IP. Line: '' @ line @ [CHR 0x0A], 1)
      else if reason = 2 then
        (os @ ''Hacking due to frequency. Line: '' @ line @ [CHR 0x0A], 1)
      else if reason = 3 then
        (os @ ''Processed '' @ show_int lineCount @ '' lines. Found '' @ show_int hackAtt
            @ '' possible hacking attempts.'' @ [CHR 0x0A], 1)
      else (os, 1))"

subsection \<open>The loop of \<open>process\<close>\<close>

text \<open>The variables of \<open>process\<close> that its loop changes, and the output stream.\<close>

record vars =
  flagged_v :: LookupMap
  log_v :: LoginTimes
  lineCount_v :: int
  hackAtt_v :: int
  user_v :: string
  os_v :: string

text \<open>The branch of the \<open>if\<close> chain that a line takes, named as the specification names
  the classifications.\<close>

datatype Outcome = Authorized | BannedIP | AlreadyFlagged | FrequencyBreach | Benign

text \<open>\<open>int temp = line.find("sshd"); user = line.substr(temp + 5, 5);\<close>\<close>

definition userStart :: "string \<Rightarrow> nat" where
  "userStart line = (let temp = size_t_to_int (find line ''sshd'') in int_to_size_t (temp + 5))"

definition extractUser :: "string \<Rightarrow> error + string" where
  "extractUser line = substr line (userStart line) 5"

text \<open>The body of the second loop of \<open>process\<close>, for one line: the line is counted, the
  user is cut out of it, and the first rule that applies decides. The result names the
  branch taken beside the variables.\<close>

definition classify ::
  "clock \<Rightarrow> LookupMap \<Rightarrow> LookupMap \<Rightarrow> string \<Rightarrow> vars \<Rightarrow> error + (Outcome \<times> vars)" where
  "classify libc authUser banIP line s0 =
     (let s = s0\<lparr>lineCount_v := lineCount_v s0 + 1\<rparr>
      in case extractUser line of
           Inl e \<Rightarrow> Inl e
         | Inr u \<Rightarrow>
             (let s = s\<lparr>user_v := u\<rparr> in
              if isAuth line authUser then Inr (Authorized, s)
              else if isBand line banIP then
                (let r = processHelper (os_v s) 1 line 0 0
                 in Inr (BannedIP, s\<lparr>hackAtt_v := hackAtt_v s + snd r, os_v := fst r\<rparr>))
              else
                (let f = isFlag u (flagged_v s); s = s\<lparr>flagged_v := snd f\<rparr> in
                 if fst f then
                   (let r = processHelper (os_v s) 1 line 0 0
                    in Inr (AlreadyFlagged,
                            s\<lparr>hackAtt_v := hackAtt_v s + snd r, os_v := fst r\<rparr>))
                 else
                   (let c = checkLog libc line (log_v s) u; s = s\<lparr>log_v := snd c\<rparr> in
                    if fst c then
                      (let r = processHelper (os_v s) 2 line 0 0
                       in Inr (FrequencyBreach,
                               s\<lparr>hackAtt_v := hackAtt_v s + snd r, os_v := fst r\<rparr>))
                    else Inr (Benign, s)))))"

text \<open>The first loop of \<open>process\<close> drops the header: the lines up to and including the
  first one that is empty or a lone carriage return.\<close>

fun skipHeader :: "string list \<Rightarrow> string list" where
  "skipHeader [] = []"
| "skipHeader (hdr # is) =
     (if hdr \<noteq> [] \<and> hdr \<noteq> [CHR 0x0D] then skipHeader is else is)"

text \<open>The second loop stops at the end of the stream or at the first empty line.\<close>

fun dataLoop ::
  "clock \<Rightarrow> LookupMap \<Rightarrow> LookupMap \<Rightarrow> string list \<Rightarrow> vars \<Rightarrow> error + vars" where
  "dataLoop libc authUser banIP [] s = Inr s"
| "dataLoop libc authUser banIP (line # is) s =
     (if line = [] then Inr s
      else case classify libc authUser banIP line s of
             Inl e \<Rightarrow> Inl e
           | Inr r \<Rightarrow> dataLoop libc authUser banIP is (snd r))"

definition init :: vars where
  "init = \<lparr>flagged_v = [], log_v = [], lineCount_v = 0, hackAtt_v = 0,
           user_v = [], os_v = []\<rparr>"

text \<open>\<open>process\<close>, the two tables that \<open>loadLookup\<close> reads from files being parameters.\<close>

definition process :: "clock \<Rightarrow> LookupMap \<Rightarrow> LookupMap \<Rightarrow> string list \<Rightarrow> error + vars" where
  "process libc authUser banIP is =
     (case dataLoop libc authUser banIP (skipHeader is) init of
        Inl e \<Rightarrow> Inl e
      | Inr s \<Rightarrow>
          Inr (s\<lparr>os_v := fst (processHelper (os_v s) 3 (user_v s) (hackAtt_v s) (lineCount_v s))\<rparr>))"

text \<open>The run of the second loop as a list: each line that the loop classifies, with the
  branch it took and the variables after it.\<close>

fun trace ::
  "clock \<Rightarrow> LookupMap \<Rightarrow> LookupMap \<Rightarrow> string list \<Rightarrow> vars \<Rightarrow> (string \<times> Outcome \<times> vars) list" where
  "trace libc authUser banIP [] s = []"
| "trace libc authUser banIP (line # is) s =
     (if line = [] then []
      else case classify libc authUser banIP line s of
             Inl e \<Rightarrow> []
           | Inr r \<Rightarrow> (line, r) # trace libc authUser banIP is (snd r))"

subsection \<open>What the specification says of the report\<close>

text \<open>The data lines are the lines after the header up to the first empty one.\<close>

definition dataLines :: "string list \<Rightarrow> string list" where
  "dataLines is = takeWhile (\<lambda>line. line \<noteq> []) (skipHeader is)"

text \<open>The classifications that count as a hacking attempt.\<close>

fun isHacking :: "Outcome \<Rightarrow> bool" where
  "isHacking BannedIP = True"
| "isHacking AlreadyFlagged = True"
| "isHacking FrequencyBreach = True"
| "isHacking Authorized = False"
| "isHacking Benign = False"

text \<open>The message of a classified line, and the summary.\<close>

fun report :: "string \<Rightarrow> Outcome \<Rightarrow> string" where
  "report line BannedIP = ''Hacking due to banned IP. Line: '' @ line @ [CHR 0x0A]"
| "report line AlreadyFlagged = ''Hacking due to banned IP. Line: '' @ line @ [CHR 0x0A]"
| "report line FrequencyBreach = ''Hacking due to frequency. Line: '' @ line @ [CHR 0x0A]"
| "report line Authorized = []"
| "report line Benign = []"

definition summary :: "int \<Rightarrow> int \<Rightarrow> string" where
  "summary n m = ''Processed '' @ show_int n @ '' lines. Found '' @ show_int m
     @ '' possible hacking attempts.'' @ [CHR 0x0A]"

subsection \<open>A clock and lines for the examples\<close>

text \<open>The theorems hold for every \<open>libc\<close>. The examples run the program, so they need
  one: \<open>dayClock\<close> reads the \<open>HH:MM:SS\<close> that ends the text as the seconds since
  midnight. The lines of the examples carry a one-digit day, so that their first 14
  characters are the whole time stamp.\<close>

definition num :: "string \<Rightarrow> int" where
  "num s = foldl (\<lambda>a c. 10 * a + (of_char c - 48)) 0 s"

definition dayClock :: clock where
  "dayClock y ts =
     (let t = drop (length ts - 8) ts
      in 3600 * num (take 2 t) + 60 * num (take 2 (drop 3 t)) + num (drop 6 t))"

definition line0 :: string where
  "line0 = ''Jan 1 00:00:00 sshd[12345]: Failed password''"

definition line5 :: string where
  "line5 = ''Jan 1 00:00:05 sshd[12345]: Failed password''"

definition line10 :: string where
  "line10 = ''Jan 1 00:00:10 sshd[12345]: Failed password''"

definition line99 :: string where
  "line99 = ''Jan 1 00:01:39 sshd[12345]: Failed password''"

definition lineBan :: string where
  "lineBan = ''Jan 1 00:00:10 sshd[12345]: Failed password for root from 10.0.0.1''"

subsection \<open>The C library behind \<open>toSeconds\<close>\<close>
























text \<open>The parts of an entry of the trace.\<close>

definition lineOf :: "string \<times> Outcome \<times> vars \<Rightarrow> string" where
  "lineOf r = fst r"

definition outcomeOf :: "string \<times> Outcome \<times> vars \<Rightarrow> Outcome" where
  "outcomeOf r = fst (snd r)"

definition varsOf :: "string \<times> Outcome \<times> vars \<Rightarrow> vars" where
  "varsOf r = snd (snd r)"

subsection \<open>Invariants\<close>

text \<open>No stored history is longer than three time stamps.\<close>

definition bounded :: "LoginTimes \<Rightarrow> bool" where
  "bounded log = list_all (\<lambda>e. length (snd e) \<le> 3) log"

text \<open>No stored flag is \<open>true\<close>.\<close>

definition noTrue :: "LookupMap \<Rightarrow> bool" where
  "noTrue flagged = list_all (\<lambda>e. \<not> snd e) flagged"

section \<open>Properties\<close>

subsection \<open>Searching a string\<close>

text \<open>\<open>find\<close> returns the first index at which the pattern occurs, and \<open>None\<close> only if
  it occurs nowhere.\<close>

lemma find_from_Some:
  "find_from s pat k = Some i \<Longrightarrow>
   k \<le> i \<and> i - k \<le> length s \<and> take (length pat) (drop (i - k) s) = pat
   \<and> (\<forall>j < i - k. take (length pat) (drop j s) \<noteq> pat)"
proof (induction s arbitrary: k)
  case Nil
  then show ?case by (simp split: if_splits)
next
  case (Cons c cs)
  show ?case
  proof (cases "take (length pat) (c # cs) = pat")
    case True
    then show ?thesis using Cons.prems by simp
  next
    case False
    then have "find_from cs pat (Suc k) = Some i" using Cons.prems by simp
    from Cons.IH [OF this]
    have a: "Suc k \<le> i" and b: "i - Suc k \<le> length cs"
      and c: "take (length pat) (drop (i - Suc k) cs) = pat"
      and d: "\<forall>j < i - Suc k. take (length pat) (drop j cs) \<noteq> pat" by simp_all
    from a have e: "i - k = Suc (i - Suc k)" by simp
    have "\<forall>j < i - k. take (length pat) (drop j (c # cs)) \<noteq> pat"
    proof (intro allI impI)
      fix j assume j: "j < i - k"
      show "take (length pat) (drop j (c # cs)) \<noteq> pat"
      proof (cases j)
        case 0
        then show ?thesis using False by simp
      next
        case (Suc m)
        then have "m < i - Suc k" using j e by simp
        with d Suc show ?thesis by simp
      qed
    qed
    with a b c e show ?thesis by simp
  qed
qed

lemma find_from_None:
  "find_from s pat k = None \<Longrightarrow> j \<le> length s \<Longrightarrow> take (length pat) (drop j s) \<noteq> pat"
proof (induction s arbitrary: k j)
  case Nil
  then show ?case by (auto split: if_splits)
next
  case (Cons c cs)
  from Cons.prems(1) have n: "take (length pat) (c # cs) \<noteq> pat"
    and r: "find_from cs pat (Suc k) = None" by (simp_all split: if_splits)
  show ?case
  proof (cases j)
    case 0
    then show ?thesis using n by simp
  next
    case (Suc m)
    then show ?thesis using Cons.IH [OF r, of m] Cons.prems(2) by simp
  qed
qed

lemma find_first_occurrence:
  "find s pat = Some i \<Longrightarrow>
   i \<le> length s \<and> take (length pat) (drop i s) = pat
   \<and> (\<forall>j < i. take (length pat) (drop j s) \<noteq> pat)"
  using find_from_Some [of s pat 0 i] by (simp add: find_def)

lemma find_absent:
  "find s pat = None \<Longrightarrow> j \<le> length s \<Longrightarrow> take (length pat) (drop j s) \<noteq> pat"
  using find_from_None [of s pat 0 j] by (simp add: find_def)

subsection \<open>The scan of the frequency rule\<close>

lemma list_all_update:
  "list_all P al \<Longrightarrow> P (k, v) \<Longrightarrow> list_all P (AList.update k v al)"
  by (induction al) auto

lemma scanLoop_end: "length temp \<le> i \<Longrightarrow> scanLoop line user i check temp log = (False, log)"
  by simp

lemma scanLoop_collapse:
  assumes "i + 1 < length temp"
    and "\<not> (\<bar>temp ! (i + 1) - temp ! i\<bar> < 20 \<and> find line ''Failed'' \<noteq> None)"
  shows "scanPair line user i check temp log = (0, [last temp], AList.update user [last temp] log)
    \<and> scanLoop line user i check temp log
        = scanLoop line user (i + 1) 0 [last temp] (AList.update user [last temp] log)
    \<and> scanLoop line user i check temp log = (False, AList.update user [last temp] log)"
proof -
  have p: "scanPair line user i check temp log = (0, [last temp], AList.update user [last temp] log)"
    using assms by (auto simp: scanPair_def)
  have i: "i < length temp" using assms(1) by simp
  have step: "scanLoop line user i check temp log
        = scanLoop line user (i + 1) 0 [last temp] (AList.update user [last temp] log)"
    by (subst scanLoop.simps) (simp add: p i)
  have "scanLoop line user (i + 1) 0 [last temp] (AList.update user [last temp] log)
        = (False, AList.update user [last temp] log)"
    by (rule scanLoop_end) simp
  with p step show ?thesis by simp
qed

lemma scanLoop_breach:
  assumes "i < length temp" and "2 < fst (scanPair line user i check temp log)"
  shows "scanLoop line user i check temp log = (True, AList.update user (tl temp) log)"
proof -
  obtain c where p: "scanPair line user i check temp log = (c, temp, log)"
    using assms(2) by (auto simp: scanPair_def split: if_splits)
  with assms show ?thesis
    by (subst scanLoop.simps) (simp add: Let_def)
qed

lemma scanLoop_cases:
  "i \<le> length temp \<Longrightarrow> check \<le> 2 \<Longrightarrow>
   (scanLoop line user i check temp log = (False, log) \<and> check + int (length temp - 1 - i) \<le> 2)
   \<or> scanLoop line user i check temp log = (False, AList.update user [last temp] log)
   \<or> scanLoop line user i check temp log = (True, AList.update user (tl temp) log)"
proof (induction line user i check temp log rule: scanLoop.induct)
  case (1 line user i check temp log)
  show ?case
  proof (cases "i < length temp")
    case False
    then show ?thesis using "1.prems" by simp
  next
    case True
    note i = this
    show ?thesis
    proof (cases "i + 1 < length temp")
      case False
      then have p: "scanPair line user i check temp log = (check, temp, log)"
        by (simp add: scanPair_def)
      have "scanLoop line user i check temp log = scanLoop line user (i + 1) check temp log"
        using i "1.prems" by (subst scanLoop.simps) (simp add: p)
      also have "\<dots> = (False, log)" using False by (intro scanLoop_end) simp
      finally show ?thesis using False i "1.prems" by simp
    next
      case True
      note j = this
      show ?thesis
      proof (cases "\<bar>temp ! (i + 1) - temp ! i\<bar> < 20 \<and> find line ''Failed'' \<noteq> None")
        case False
        then show ?thesis using scanLoop_collapse [OF j, of line user check log] by simp
      next
        case True
        then have p: "scanPair line user i check temp log = (check + 1, temp, log)"
          using j by (simp add: scanPair_def)
        show ?thesis
        proof (cases "check + 1 > 2")
          case True
          then show ?thesis using scanLoop_breach [OF i, of line user check log] p by simp
        next
          case False
          then have eq: "scanLoop line user i check temp log = scanLoop line user (i + 1) (check + 1) temp log"
            using i by (subst scanLoop.simps) (simp add: p)
          have "(scanLoop line user (i + 1) (check + 1) temp log = (False, log) \<and> (check + 1) + int (length temp - 1 - (i + 1)) \<le> 2)
   \<or> scanLoop line user (i + 1) (check + 1) temp log = (False, AList.update user [last temp] log)
   \<or> scanLoop line user (i + 1) (check + 1) temp log = (True, AList.update user (tl temp) log)"
            using "1.IH" [OF i refl refl refl refl] p False j by simp
          then show ?thesis using eq j by auto
        qed
      qed
    qed
  qed
qed

subsection \<open>One line\<close>

lemma bounded_lookup: "bounded log \<Longrightarrow> map_of log user = Some h \<Longrightarrow> length h \<le> 3"
  by (auto simp: bounded_def list_all_iff dest!: map_of_SomeD)

lemma bounded_update: "bounded log \<Longrightarrow> length v \<le> 3 \<Longrightarrow> bounded (AList.update user v log)"
  by (simp add: bounded_def list_all_update)

lemma checkLogHelper_bounded:
  assumes "bounded log" and "length temp \<le> 4"
  shows "bounded (snd (checkLogHelper temp line (AList.update user temp log) user))"
proof -
  let ?log1 = "AList.update user temp log"
  have l: "bounded (AList.update user [last temp] ?log1)"
    using assms by (simp add: bounded_update)
  have t: "bounded (AList.update user (tl temp) ?log1)"
    using assms by (simp add: bounded_update)
  from scanLoop_cases [of 0 temp 0 line user ?log1]
  consider "scanLoop line user 0 0 temp ?log1 = (False, ?log1)" and "int (length temp - 1) \<le> 2"
    | "scanLoop line user 0 0 temp ?log1 = (False, AList.update user [last temp] ?log1)"
    | "scanLoop line user 0 0 temp ?log1 = (True, AList.update user (tl temp) ?log1)"
    by auto
  then show ?thesis
  proof cases
    case 1
    then have "length temp \<le> 3" by simp
    then show ?thesis using 1 assms by (simp add: checkLogHelper_def bounded_update)
  next
    case 2
    then show ?thesis using l by (simp add: checkLogHelper_def)
  next
    case 3
    then show ?thesis using t by (simp add: checkLogHelper_def)
  qed
qed

lemma checkLog_bounded: "bounded log \<Longrightarrow> bounded (snd (checkLog libc line log user))"
proof (cases "map_of log user")
  case None
  assume "bounded log"
  then show ?thesis using None by (simp add: checkLog_def bounded_update)
next
  case (Some h)
  assume b: "bounded log"
  then have "length (h @ [toSeconds libc (take 14 line) 2021]) \<le> 4"
    using bounded_lookup [OF b Some] by simp
  then show ?thesis
    using Some b checkLogHelper_bounded [OF b, of "h @ [toSeconds libc (take 14 line) 2021]" line user]
    by (simp add: checkLog_def Let_def bounded_update)
qed

lemma noTrue_lookup: "noTrue flagged \<Longrightarrow> map_of flagged user \<noteq> Some True"
  by (auto simp: noTrue_def list_all_iff dest!: map_of_SomeD)

lemma isFlag_noTrue: "noTrue flagged \<Longrightarrow> \<not> fst (isFlag user flagged) \<and> noTrue (snd (isFlag user flagged))"
  using noTrue_lookup [of flagged user]
  by (simp add: isFlag_def) (simp add: noTrue_def list_all_update)

lemma isFlag_lookup: "noTrue flagged \<Longrightarrow> map_of (snd (isFlag user flagged)) user = Some False"
  using noTrue_lookup [of flagged user]
  by (cases "map_of flagged user") (auto simp: isFlag_def update_conv')

lemma classify_Inl: "extractUser line = Inl e \<Longrightarrow> classify libc authUser banIP line s = Inl e"
  by (simp add: classify_def)

lemma classify_Inr:
  assumes "classify libc authUser banIP line s = Inr (oc, s')"
  shows "extractUser line = Inr (user_v s')"
    and "lineCount_v s' = lineCount_v s + 1"
    and "hackAtt_v s' = hackAtt_v s + (if isHacking oc then 1 else 0)"
    and "os_v s' = os_v s @ report line oc"
  using assms
  by (auto simp: classify_def Let_def processHelper_def split: sum.splits if_splits)

lemma classify_bounded:
  "classify libc authUser banIP line s = Inr (oc, s') \<Longrightarrow> bounded (log_v s) \<Longrightarrow> bounded (log_v s')"
  by (auto simp: classify_def Let_def checkLog_bounded split: sum.splits if_splits)

lemma classify_noTrue:
  "classify libc authUser banIP line s = Inr (oc, s') \<Longrightarrow> noTrue (flagged_v s) \<Longrightarrow>
   noTrue (flagged_v s') \<and> oc \<noteq> AlreadyFlagged"
  by (auto simp: classify_def Let_def isFlag_noTrue split: sum.splits if_splits)

lemma classify_frequency:
  assumes "extractUser line = Inr u" and "\<not> isAuth line authUser" and "\<not> isBand line banIP"
    and "noTrue (flagged_v s)"
  shows "\<exists>s'. classify libc authUser banIP line s
           = Inr (if fst (checkLog libc line (log_v s) u) then FrequencyBreach else Benign, s')
         \<and> log_v s' = snd (checkLog libc line (log_v s) u)
         \<and> flagged_v s' = snd (isFlag u (flagged_v s))"
  using assms isFlag_noTrue [of "flagged_v s" u]
  by (auto simp: classify_def Let_def)



lemma size_t_to_int_None: "size_t_to_int None = - 1"
  by (simp add: size_t_to_int_def npos_def)

lemma size_t_to_int_Some: "n < 2 ^ 31 \<Longrightarrow> size_t_to_int (Some n) = int n"
  by (simp add: size_t_to_int_def signed_of_nat signed_take_bit_int_eq_self)

lemma userStart_None: "find line ''sshd'' = None \<Longrightarrow> userStart line = 4"
  by (simp add: userStart_def size_t_to_int_None int_to_size_t_def)

lemma userStart_Some: "find line ''sshd'' = Some n \<Longrightarrow> n < 2 ^ 31 \<Longrightarrow> userStart line = n + 5"
  by (simp add: userStart_def size_t_to_int_Some int_to_size_t_def nat_add_distrib)

lemma extractUser_Inl: "(extractUser line = Inl e) = (length line < userStart line)"
  by (cases e) (simp add: extractUser_def substr_def)

lemma extractUser_Inr:
  "userStart line \<le> length line \<Longrightarrow> extractUser line = Inr (take 5 (drop (userStart line) line))"
  by (simp add: extractUser_def substr_def)

lemma classify_total:
  "extractUser line = Inr u \<Longrightarrow> \<exists>r. classify libc authUser banIP line s = Inr r"
  by (simp add: classify_def Let_def)

lemma classify_Inl_iff:
  "(classify libc authUser banIP line s = Inl e) = (length line < userStart line)"
proof (cases "extractUser line")
  case (Inl e')
  then show ?thesis using extractUser_Inl [of line e'] by (cases e, cases e') (simp add: classify_Inl)
next
  case (Inr u)
  then have "\<not> length line < userStart line" using extractUser_Inl [of line e] by simp
  then show ?thesis using classify_total [OF Inr, of libc authUser banIP s] by auto
qed

lemma classify_authorized:
  "isAuth line authUser \<Longrightarrow> extractUser line = Inr u \<Longrightarrow>
   classify libc authUser banIP line s = Inr (Authorized, s\<lparr>lineCount_v := lineCount_v s + 1, user_v := u\<rparr>)"
  by (simp add: classify_def)

subsection \<open>The loop\<close>

lemma trace_bounded:
  "bounded (log_v s) \<Longrightarrow> r \<in> set (trace libc authUser banIP is s) \<Longrightarrow> bounded (log_v (varsOf r))"
proof (induction "is" arbitrary: s)
  case Nil
  then show ?case by simp
next
  case (Cons line "is")
  show ?case
  proof (cases "line = []")
    case True
    then show ?thesis using Cons.prems by simp
  next
    case False
    show ?thesis
    proof (cases "classify libc authUser banIP line s")
      case (Inl e)
      then show ?thesis using Cons.prems False by simp
    next
      case (Inr c)
      obtain oc s' where c: "c = (oc, s')" by (cases c)
      have b: "bounded (log_v s')" using classify_bounded Inr c Cons.prems(1) by blast
      from Cons.prems(2) Inr False c
      have "r = (line, oc, s') \<or> r \<in> set (trace libc authUser banIP is s')" by simp
      then show ?thesis using b Cons.IH [OF b] by (auto simp: varsOf_def)
    qed
  qed
qed

lemma trace_noTrue:
  "noTrue (flagged_v s) \<Longrightarrow> r \<in> set (trace libc authUser banIP is s) \<Longrightarrow>
   noTrue (flagged_v (varsOf r)) \<and> outcomeOf r \<noteq> AlreadyFlagged"
proof (induction "is" arbitrary: s)
  case Nil
  then show ?case by simp
next
  case (Cons line "is")
  show ?case
  proof (cases "line = []")
    case True
    then show ?thesis using Cons.prems by simp
  next
    case False
    show ?thesis
    proof (cases "classify libc authUser banIP line s")
      case (Inl e)
      then show ?thesis using Cons.prems False by simp
    next
      case (Inr c)
      obtain oc s' where c: "c = (oc, s')" by (cases c)
      have b: "noTrue (flagged_v s') \<and> oc \<noteq> AlreadyFlagged"
        using classify_noTrue Inr c Cons.prems(1) by blast
      from Cons.prems(2) Inr False c
      have "r = (line, oc, s') \<or> r \<in> set (trace libc authUser banIP is s')" by simp
      then show ?thesis using b Cons.IH [of s'] by (auto simp: varsOf_def outcomeOf_def)
    qed
  qed
qed

lemma dataLoop_noTrue:
  "dataLoop libc authUser banIP is s = Inr s' \<Longrightarrow> noTrue (flagged_v s) \<Longrightarrow> noTrue (flagged_v s')"
proof (induction "is" arbitrary: s)
  case Nil
  then show ?case by simp
next
  case (Cons line "is")
  show ?case
  proof (cases "line = []")
    case True
    then show ?thesis using Cons.prems by simp
  next
    case False
    show ?thesis
    proof (cases "classify libc authUser banIP line s")
      case (Inl e)
      then show ?thesis using Cons.prems False by simp
    next
      case (Inr c)
      obtain oc s1 where c: "c = (oc, s1)" by (cases c)
      have b: "noTrue (flagged_v s1)"
        using classify_noTrue Inr c Cons.prems(2) by blast
      from Cons.prems(1) Inr False c
      have "dataLoop libc authUser banIP is s1 = Inr s'" by simp
      then show ?thesis using b Cons.IH by blast
    qed
  qed
qed

lemma dataLoop_bounded:
  "dataLoop libc authUser banIP is s = Inr s' \<Longrightarrow> bounded (log_v s) \<Longrightarrow> bounded (log_v s')"
proof (induction "is" arbitrary: s)
  case Nil
  then show ?case by simp
next
  case (Cons line "is")
  show ?case
  proof (cases "line = []")
    case True
    then show ?thesis using Cons.prems by simp
  next
    case False
    show ?thesis
    proof (cases "classify libc authUser banIP line s")
      case (Inl e)
      then show ?thesis using Cons.prems False by simp
    next
      case (Inr c)
      obtain oc s1 where c: "c = (oc, s1)" by (cases c)
      have b: "bounded (log_v s1)"
        using classify_bounded Inr c Cons.prems(2) by blast
      from Cons.prems(1) Inr False c
      have "dataLoop libc authUser banIP is s1 = Inr s'" by simp
      then show ?thesis using b Cons.IH by blast
    qed
  qed
qed

lemma dataLoop_counts:
  "dataLoop libc authUser banIP is s = Inr s' \<Longrightarrow>
   map lineOf (trace libc authUser banIP is s) = takeWhile (\<lambda>line. line \<noteq> []) is
   \<and> lineCount_v s' = lineCount_v s + int (length (takeWhile (\<lambda>line. line \<noteq> []) is))
   \<and> hackAtt_v s' = hackAtt_v s
        + int (length (filter (\<lambda>r. isHacking (outcomeOf r)) (trace libc authUser banIP is s)))
   \<and> os_v s' = os_v s
        @ concat (map (\<lambda>r. report (lineOf r) (outcomeOf r)) (trace libc authUser banIP is s))"
proof (induction "is" arbitrary: s)
  case Nil
  then show ?case by simp
next
  case (Cons line "is")
  show ?case
  proof (cases "line = []")
    case True
    then show ?thesis using Cons.prems by simp
  next
    case False
    show ?thesis
    proof (cases "classify libc authUser banIP line s")
      case (Inl e)
      then show ?thesis using Cons.prems False by simp
    next
      case (Inr c)
      obtain oc s1 where c: "c = (oc, s1)" by (cases c)
      from Cons.prems(1) Inr False c
      have d: "dataLoop libc authUser banIP is s1 = Inr s'" by simp
      have t: "trace libc authUser banIP (line # is) s = (line, oc, s1) # trace libc authUser banIP is s1"
        using Inr False c by simp
      note f = classify_Inr(2-4) [OF Inr [unfolded c]]
      show ?thesis using Cons.IH [OF d] f False
        by (simp add: t lineOf_def outcomeOf_def del: trace.simps)
    qed
  qed
qed

lemma dataLoop_total:
  "(\<exists>s'. dataLoop libc authUser banIP is s = Inr s')
   = (\<forall>line \<in> set (takeWhile (\<lambda>line. line \<noteq> []) is). userStart line \<le> length line)"
proof (induction "is" arbitrary: s)
  case Nil
  then show ?case by simp
next
  case (Cons line "is")
  show ?case
  proof (cases "line = []")
    case True
    then show ?thesis by simp
  next
    case False
    show ?thesis
    proof (cases "classify libc authUser banIP line s")
      case (Inl e)
      then have "length line < userStart line" using classify_Inl_iff by blast
      then show ?thesis using Inl False by simp
    next
      case (Inr c)
      then have "\<not> length line < userStart line"
        using classify_Inl_iff [of libc authUser banIP line s OutOfRange] by simp
      then show ?thesis using Inr False Cons.IH [of "snd c"] by simp
    qed
  qed
qed

lemma trace_Cons:
  "line \<noteq> [] \<Longrightarrow> classify libc authUser banIP line s = Inr (oc, s') \<Longrightarrow>
   trace libc authUser banIP (line # is) s = (line, oc, s') # trace libc authUser banIP is s'"
  by simp

lemma trace_lines:
  "map lineOf (trace libc authUser banIP is s)
   = take (length (trace libc authUser banIP is s)) (takeWhile (\<lambda>line. line \<noteq> []) is)"
proof (induction "is" arbitrary: s)
  case Nil
  then show ?case by simp
next
  case (Cons line "is")
  show ?case
  proof (cases "line = []")
    case True
    then show ?thesis by simp
  next
    case False
    show ?thesis
    proof (cases "classify libc authUser banIP line s")
      case (Inl e)
      then show ?thesis using False by simp
    next
      case (Inr c)
      obtain oc s1 where c: "c = (oc, s1)" by (cases c)
      show ?thesis using Cons.IH [of s1] False
        by (simp add: trace_Cons [OF False Inr [unfolded c]] lineOf_def del: trace.simps)
    qed
  qed
qed

lemma trace_counts:
  "k < length (trace libc authUser banIP is s) \<Longrightarrow>
   lineCount_v (varsOf (trace libc authUser banIP is s ! k)) = lineCount_v s + int (Suc k)
   \<and> hackAtt_v (varsOf (trace libc authUser banIP is s ! k)) = hackAtt_v s
       + int (length (filter (\<lambda>r. isHacking (outcomeOf r))
                        (take (Suc k) (trace libc authUser banIP is s))))"
proof (induction "is" arbitrary: s k)
  case Nil
  then show ?case by simp
next
  case (Cons line "is")
  show ?case
  proof (cases "line = []")
    case True
    then show ?thesis using Cons.prems by simp
  next
    case False
    show ?thesis
    proof (cases "classify libc authUser banIP line s")
      case (Inl e)
      then show ?thesis using Cons.prems False by simp
    next
      case (Inr c)
      obtain oc s1 where c: "c = (oc, s1)" by (cases c)
      note t = trace_Cons [OF False Inr [unfolded c], of "is"]
      note f = classify_Inr(2-3) [OF Inr [unfolded c]]
      show ?thesis
      proof (cases k)
        case 0
        then show ?thesis using f by (simp add: t varsOf_def outcomeOf_def del: trace.simps)
      next
        case (Suc j)
        then have "j < length (trace libc authUser banIP is s1)"
          using Cons.prems by (simp add: t del: trace.simps)
        from Cons.IH [OF this] f Suc show ?thesis
          by (simp add: t outcomeOf_def del: trace.simps)
      qed
    qed
  qed
qed



lemma isFlag_keeps_false:
  "map_of flagged u = Some False \<Longrightarrow> map_of (snd (isFlag user flagged)) u = Some False"
  by (auto simp: isFlag_def update_conv')

lemma classify_keeps_false:
  "classify libc authUser banIP line s = Inr (oc, s') \<Longrightarrow> map_of (flagged_v s) u = Some False \<Longrightarrow>
   map_of (flagged_v s') u = Some False"
  by (auto simp: classify_def Let_def isFlag_keeps_false split: sum.splits if_splits)

lemma dataLoop_keeps_false:
  "dataLoop libc authUser banIP is s = Inr s' \<Longrightarrow> map_of (flagged_v s) u = Some False \<Longrightarrow>
   map_of (flagged_v s') u = Some False"
proof (induction "is" arbitrary: s)
  case Nil
  then show ?case by simp
next
  case (Cons line "is")
  show ?case
  proof (cases "line = []")
    case True
    then show ?thesis using Cons.prems by simp
  next
    case False
    show ?thesis
    proof (cases "classify libc authUser banIP line s")
      case (Inl e)
      then show ?thesis using Cons.prems False by simp
    next
      case (Inr c)
      obtain oc s1 where c: "c = (oc, s1)" by (cases c)
      have b: "map_of (flagged_v s1) u = Some False"
        using classify_keeps_false Inr c Cons.prems(2) by blast
      from Cons.prems(1) Inr False c
      have "dataLoop libc authUser banIP is s1 = Inr s'" by simp
      then show ?thesis using b Cons.IH by blast
    qed
  qed
qed

lemma classify_breach_flag:
  "classify libc authUser banIP line s = Inr (FrequencyBreach, s') \<Longrightarrow> noTrue (flagged_v s) \<Longrightarrow>
   map_of (flagged_v s') (user_v s') = Some False"
  by (auto simp: classify_def Let_def isFlag_lookup split: sum.splits if_splits)

subsection \<open>The time stamp field\<close>

text \<open>
  \<open>checkLog\<close> reads a line through its first 14 characters and through whether it
  contains \<open>Failed\<close>, whatever the C library computes from the text. A time stamp
  such as \<open>Aug 29 11:01:01\<close> has 15 characters, so two lines that differ in the last
  digit of the seconds are the same line to the frequency rule.
\<close>

lemma scanPair_line:
  "(find line ''Failed'' = None) = (find line' ''Failed'' = None) \<Longrightarrow>
   scanPair line user i check temp log = scanPair line' user i check temp log"
  by (simp add: scanPair_def)

lemma scanLoop_line:
  "(find line ''Failed'' = None) = (find line' ''Failed'' = None) \<Longrightarrow>
   scanLoop line user i check temp log = scanLoop line' user i check temp log"
proof (induction line user i check temp log rule: scanLoop.induct)
  case (1 line user i check temp log)
  note p = scanPair_line [OF "1.prems", of user i check temp log]
  show ?case
  proof (cases "i < length temp \<and> \<not> 2 < fst (scanPair line user i check temp log)")
    case True
    then have "scanLoop line user (i + 1) (fst (scanPair line user i check temp log))
                 (fst (snd (scanPair line user i check temp log)))
                 (snd (snd (scanPair line user i check temp log)))
             = scanLoop line' user (i + 1) (fst (scanPair line user i check temp log))
                 (fst (snd (scanPair line user i check temp log)))
                 (snd (snd (scanPair line user i check temp log)))"
      using "1.IH" [OF _ refl refl refl refl] "1.prems" by simp
    then show ?thesis
      using True p
      by (subst scanLoop.simps, subst (2) scanLoop.simps) (simp add: Let_def)
  next
    case False
    then show ?thesis
      using p by (subst scanLoop.simps, subst (2) scanLoop.simps) (auto simp: Let_def)
  qed
qed

lemma checkLogHelper_line:
  "(find line ''Failed'' = None) = (find line' ''Failed'' = None) \<Longrightarrow>
   checkLogHelper temp line log user = checkLogHelper temp line' log user"
  unfolding checkLogHelper_def by (rule scanLoop_line)

lemma checkLog_first_14:
  assumes "take 14 line = take 14 line'"
    and "(find line ''Failed'' = None) = (find line' ''Failed'' = None)"
  shows "checkLog libc line log user = checkLog libc line' log user"
  unfolding checkLog_def assms(1) checkLogHelper_line [OF assms(2)] ..

lemma seconds_digit_dropped:
  "length ''Aug 29 11:01:01'' = 15
   \<and> checkLog libc (''Aug 29 11:01:01'' @ rest) log user
       = checkLog libc (''Aug 29 11:01:02'' @ rest) log user"
proof -
  have "(find (''Aug 29 11:01:01'' @ rest) ''Failed'' = None)
        = (find (''Aug 29 11:01:02'' @ rest) ''Failed'' = None)"
    by (simp add: find_def)
  then show ?thesis by (simp add: checkLog_first_14)
qed

subsection \<open>The C library on a well-formed time stamp\<close>














section \<open>The claims\<close>

subsection \<open>C4: a broken streak collapses the history\<close>

text \<open>
  Claim C4. During the scan of \<open>checkLogHelper\<close>, whenever the pair of time stamps at
  \<open>i\<close> and \<open>i + 1\<close> is 20 seconds or more apart, or the current line does not contain
  \<open>Failed\<close>, the local history becomes the single most recent time stamp and is stored
  for the user, the counter \<open>check\<close> becomes 0, and the loop goes on with the next index.
  Since the history then has one entry, the scan ends there and answers \<open>false\<close>.
\<close>

theorem history_collapse:
  assumes "i + 1 < length temp"
    and "\<not> (\<bar>temp ! (i + 1) - temp ! i\<bar> < 20 \<and> find line ''Failed'' \<noteq> None)"
  shows "scanPair line user i check temp log
           = (0, [last temp], AList.update user [last temp] log)
         \<and> scanLoop line user i check temp log
           = scanLoop line user (i + 1) 0 [last temp] (AList.update user [last temp] log)
         \<and> scanLoop line user i check temp log = (False, AList.update user [last temp] log)
         \<and> map_of (snd (scanLoop line user i check temp log)) user = Some [last temp]"
  using scanLoop_collapse [OF assms, of user check log] by (simp add: update_conv')

text \<open>The theorem at a history whose last gap is 95 seconds.\<close>

theorem history_collapse_witness:
  "(1::nat) + 1 < length [0, 5, 100 :: int]
   \<and> \<not> (\<bar>[0, 5, 100 :: int] ! (1 + 1) - [0, 5, 100] ! 1\<bar> < 20 \<and> find line0 ''Failed'' \<noteq> None)
   \<and> scanLoop line0 ''12345'' 1 1 [0, 5, 100] [(''12345'', [0, 5, 100])]
       = (False, [(''12345'', [100])])"
proof -
  have h1: "(1::nat) + 1 < length [0, 5, 100 :: int]" by simp
  have h2: "\<not> (\<bar>[0, 5, 100 :: int] ! (1 + 1) - [0, 5, 100] ! 1\<bar> < 20
              \<and> find line0 ''Failed'' \<noteq> None)" by simp
  from history_collapse [OF h1 h2, of "''12345''" 1 "[(''12345'', [0, 5, 100])]"]
  have "scanLoop line0 ''12345'' 1 1 [0, 5, 100] [(''12345'', [0, 5, 100])]
       = (False, [(''12345'', [100])])" by simp
  with h1 h2 show ?thesis by blast
qed

subsection \<open>C5: a breach drops the oldest time stamp\<close>

text \<open>
  Claim C5. Whenever the counter \<open>check\<close> exceeds 2 after a pair has been examined, the
  scan returns \<open>true\<close> at once, and the history stored for the user is the one it had
  without its first time stamp; the histories of the other users stay as they are.
\<close>

theorem breach_slides:
  assumes "i < length temp"
    and "2 < fst (scanPair line user i check temp log)"
    and "map_of log user = Some temp"
  shows "scanLoop line user i check temp log = (True, AList.update user (tl temp) log)
         \<and> map_of (snd (scanLoop line user i check temp log)) user
             = map_option tl (map_of log user)
         \<and> (\<forall>u. u \<noteq> user \<longrightarrow>
               map_of (snd (scanLoop line user i check temp log)) u = map_of log u)"
  using scanLoop_breach [OF assms(1,2)] assms(3) by (simp add: update_conv')

text \<open>The theorem at the third pair of four close time stamps.\<close>

theorem breach_slides_witness:
  "(2::nat) < length [0, 5, 10, 10 :: int]
   \<and> 2 < fst (scanPair line10 ''12345'' 2 2 [0, 5, 10, 10] [(''12345'', [0, 5, 10, 10])])
   \<and> map_of [(''12345'', [0, 5, 10, 10 :: int])] ''12345'' = Some [0, 5, 10, 10]
   \<and> scanLoop line10 ''12345'' 2 2 [0, 5, 10, 10] [(''12345'', [0, 5, 10, 10])]
       = (True, [(''12345'', [5, 10, 10])])"
proof -
  have h1: "(2::nat) < length [0, 5, 10, 10 :: int]" by simp
  have h2: "2 < fst (scanPair line10 ''12345'' 2 2 [0, 5, 10, 10] [(''12345'', [0, 5, 10, 10])])"
    by code_simp
  have h3: "map_of [(''12345'', [0, 5, 10, 10 :: int])] ''12345'' = Some [0, 5, 10, 10]"
    by simp
  from breach_slides [OF h1 h2 h3]
  have "scanLoop line10 ''12345'' 2 2 [0, 5, 10, 10] [(''12345'', [0, 5, 10, 10])]
       = (True, [(''12345'', [5, 10, 10])])" by simp
  with h1 h2 h3 show ?thesis by blast
qed

subsection \<open>C6: the stored histories are bounded\<close>

text \<open>
  Claim C6. After every line that the loop of \<open>process\<close> has classified, whatever the
  input, every stored history holds at most 3 time stamps; so it does in the variables
  that \<open>process\<close> ends with.
\<close>

theorem bounded_history:
  "(\<forall>r \<in> set (trace libc authUser banIP is init).
      \<forall>u h. map_of (log_v (varsOf r)) u = Some h \<longrightarrow> length h \<le> 3)
   \<and> (\<forall>s. process libc authUser banIP is = Inr s \<longrightarrow>
         (\<forall>u h. map_of (log_v s) u = Some h \<longrightarrow> length h \<le> 3))"
proof -
  have i: "bounded (log_v init)" by (simp add: init_def bounded_def)
  have "\<forall>r \<in> set (trace libc authUser banIP is init).
      \<forall>u h. map_of (log_v (varsOf r)) u = Some h \<longrightarrow> length h \<le> 3"
    using trace_bounded [OF i] bounded_lookup by blast
  moreover have "\<forall>s. process libc authUser banIP is = Inr s \<longrightarrow>
         (\<forall>u h. map_of (log_v s) u = Some h \<longrightarrow> length h \<le> 3)"
  proof (intro allI impI)
    fix s u h
    assume p: "process libc authUser banIP is = Inr s" and m: "map_of (log_v s) u = Some h"
    from p obtain s' where d: "dataLoop libc authUser banIP (skipHeader is) init = Inr s'"
      and s: "log_v s = log_v s'"
      by (auto simp: process_def split: sum.splits)
    from dataLoop_bounded [OF d i] s m show "length h \<le> 3"
      using bounded_lookup by metis
  qed
  ultimately show ?thesis by blast
qed

text \<open>The theorem at the run of four lines that ends in a breach.\<close>

theorem bounded_history_witness:
  "(line10, FrequencyBreach,
      \<lparr>flagged_v = [(''12345'', False)], log_v = [(''12345'', [5, 10, 10])], lineCount_v = 4,
       hackAtt_v = 1, user_v = ''12345'',
       os_v = ''Hacking due to frequency. Line: '' @ line10 @ [CHR 0x0A]\<rparr>)
     \<in> set (trace dayClock [] [] [line0, line5, line10, line10] init)
   \<and> map_of [(''12345'', [5, 10, 10 :: int])] ''12345'' = Some [5, 10, 10]
   \<and> length [5, 10, 10 :: int] \<le> 3"
proof -
  let ?r = "(line10, FrequencyBreach,
      \<lparr>flagged_v = [(''12345'', False)], log_v = [(''12345'', [5, 10, 10])], lineCount_v = 4,
       hackAtt_v = 1, user_v = ''12345'',
       os_v = ''Hacking due to frequency. Line: '' @ line10 @ [CHR 0x0A]\<rparr>)"
  have h1: "?r \<in> set (trace dayClock [] [] [line0, line5, line10, line10] init)"
    by code_simp
  have h2: "map_of (log_v (varsOf ?r)) ''12345'' = Some [5, 10, 10]"
    by (simp add: varsOf_def)
  from bounded_history [of dayClock "[]" "[]" "[line0, line5, line10, line10]"] h1 h2
  have "length [5, 10, 10 :: int] \<le> 3" by blast
  with h1 show ?thesis by simp
qed

subsection \<open>C9: no flag is ever \<open>true\<close>\<close>

text \<open>
  Claim C9. The only store into the table \<open>flagged\<close> is the \<open>false\<close> that \<open>isFlag\<close>
  enters for an unseen user, the assignment after a frequency breach being commented out.
  So, whatever the input: \<open>isFlag\<close> answers \<open>false\<close> on the empty table that \<open>process\<close>
  starts with and on the table after every classified line, every value in the table
  is \<open>false\<close>, and no line takes the branch of an already flagged user.
\<close>

theorem flagged_never_true:
  "(\<forall>u. \<not> fst (isFlag u (flagged_v init)))
   \<and> (\<forall>r \<in> set (trace libc authUser banIP is init).
        outcomeOf r \<noteq> AlreadyFlagged
        \<and> (\<forall>e \<in> set (flagged_v (varsOf r)). snd e = False)
        \<and> (\<forall>u. \<not> fst (isFlag u (flagged_v (varsOf r)))))"
proof -
  have i: "noTrue (flagged_v init)" by (simp add: init_def noTrue_def)
  have "\<forall>u. \<not> fst (isFlag u (flagged_v init))" using isFlag_noTrue [OF i] by simp
  moreover have "\<forall>r \<in> set (trace libc authUser banIP is init).
        outcomeOf r \<noteq> AlreadyFlagged
        \<and> (\<forall>e \<in> set (flagged_v (varsOf r)). snd e = False)
        \<and> (\<forall>u. \<not> fst (isFlag u (flagged_v (varsOf r))))"
  proof
    fix r
    assume "r \<in> set (trace libc authUser banIP is init)"
    from trace_noTrue [OF i this]
    have n: "noTrue (flagged_v (varsOf r))" and o: "outcomeOf r \<noteq> AlreadyFlagged" by simp_all
    from n have "\<forall>e \<in> set (flagged_v (varsOf r)). snd e = False"
      by (simp add: noTrue_def list_all_iff)
    with o isFlag_noTrue [OF n]
    show "outcomeOf r \<noteq> AlreadyFlagged
        \<and> (\<forall>e \<in> set (flagged_v (varsOf r)). snd e = False)
        \<and> (\<forall>u. \<not> fst (isFlag u (flagged_v (varsOf r))))" by simp
  qed
  ultimately show ?thesis by simp
qed

text \<open>The theorem at the line that breaches the frequency rule.\<close>

theorem flagged_never_true_witness:
  "(line10, FrequencyBreach,
      \<lparr>flagged_v = [(''12345'', False)], log_v = [(''12345'', [5, 10, 10])], lineCount_v = 4,
       hackAtt_v = 1, user_v = ''12345'',
       os_v = ''Hacking due to frequency. Line: '' @ line10 @ [CHR 0x0A]\<rparr>)
     \<in> set (trace dayClock [] [] [line0, line5, line10, line10] init)
   \<and> (''12345'', False) \<in> set [(''12345'', False)]
   \<and> \<not> fst (isFlag ''12345'' [(''12345'', False)])"
proof -
  let ?r = "(line10, FrequencyBreach,
      \<lparr>flagged_v = [(''12345'', False)], log_v = [(''12345'', [5, 10, 10])], lineCount_v = 4,
       hackAtt_v = 1, user_v = ''12345'',
       os_v = ''Hacking due to frequency. Line: '' @ line10 @ [CHR 0x0A]\<rparr>)"
  have h1: "?r \<in> set (trace dayClock [] [] [line0, line5, line10, line10] init)"
    by code_simp
  have h2: "flagged_v (varsOf ?r) = [(''12345'', False)]" by (simp add: varsOf_def)
  from flagged_never_true [of dayClock "[]" "[]" "[line0, line5, line10, line10]"] h1
  have "\<forall>u. \<not> fst (isFlag u (flagged_v (varsOf ?r)))" by blast
  then have "\<not> fst (isFlag ''12345'' [(''12345'', False)])" unfolding h2 by blast
  with h1 show ?thesis by simp
qed

subsection \<open>C3: an authorized line\<close>

text \<open>
  Claim C3 says that every line containing an authorized entry is classified as
  authorized. The user is cut out of the line before the table of authorized users is
  consulted, and \<open>substr\<close> throws on a line that is too short for it: the line \<open>bob\<close>
  contains the authorized entry \<open>bob\<close>, has no \<open>sshd\<close> in it, so that the user would
  start at index 4 of a line of length 3, and its classification is the exception.
\<close>

theorem authorized_precedence_counterexample:
  "isAuth ''bob'' [(''bob'', True)]
   \<and> classify dayClock [(''bob'', True)] [] ''bob'' init = Inl OutOfRange"
  by code_simp

text \<open>
  Claim C3, amended. A line that contains an authorized entry, and is long enough for
  the user to be cut out of it, is classified as authorized whatever the banned entries
  and the variables are: the line is counted and the current user is set, and the
  flags, the histories, the count of hacking attempts and the output stay as they were.
\<close>

theorem authorized_precedence:
  assumes "isAuth line authUser" and "userStart line \<le> length line"
  shows "classify libc authUser banIP line s
         = Inr (Authorized,
                s\<lparr>lineCount_v := lineCount_v s + 1,
                  user_v := take 5 (drop (userStart line) line)\<rparr>)"
  using classify_authorized [OF assms(1) extractUser_Inr [OF assms(2)]] .

text \<open>The theorem at a line that contains a banned address as well.\<close>

theorem authorized_precedence_witness:
  "isAuth lineBan [(''12345'', True)] \<and> userStart lineBan \<le> length lineBan
   \<and> isBand lineBan [(''10.0.0.1'', True)]
   \<and> classify dayClock [(''12345'', True)] [(''10.0.0.1'', True)] lineBan init
     = Inr (Authorized, init\<lparr>lineCount_v := 1, user_v := ''12345''\<rparr>)"
proof -
  have h1: "isAuth lineBan [(''12345'', True)]" by code_simp
  have h2: "userStart lineBan \<le> length lineBan" by code_simp
  have h3: "isBand lineBan [(''10.0.0.1'', True)]" by code_simp
  have u: "take 5 (drop (userStart lineBan) lineBan) = ''12345''" by code_simp
  have c: "lineCount_v init + 1 = 1" by (simp add: init_def)
  from authorized_precedence [OF h1 h2, of dayClock "[(''10.0.0.1'', True)]" init]
  have "classify dayClock [(''12345'', True)] [(''10.0.0.1'', True)] lineBan init
     = Inr (Authorized, init\<lparr>lineCount_v := 1, user_v := ''12345''\<rparr>)"
    unfolding u c .
  with h1 h2 h3 show ?thesis by blast
qed

subsection \<open>C10: cutting the user out of the line\<close>

text \<open>
  Claim C10. The user is the at most 5 characters from the index \<open>userStart\<close> on. If
  \<open>sshd\<close> does not occur in the line, the \<open>npos\<close> that \<open>find\<close> returns becomes
  \<open>-1\<close> in the \<open>int\<close> and the user starts at index 4; if it occurs at \<open>n\<close> the user
  starts at \<open>n + 5\<close>. The extraction throws exactly if the start lies beyond the end of
  the line, the classification of a line throws exactly then, and the loop ends without
  an exception exactly if every line before the first empty one is long enough.
\<close>

theorem user_extraction:
  "(find line ''sshd'' = None \<longrightarrow>
      userStart line = 4
      \<and> extractUser line
          = (if length line < 4 then Inl OutOfRange else Inr (take 5 (drop 4 line))))
   \<and> (\<forall>n. find line ''sshd'' = Some n \<and> n < 2 ^ 31 \<longrightarrow> userStart line = n + 5)
   \<and> (userStart line \<le> length line \<longrightarrow>
        extractUser line = Inr (take 5 (drop (userStart line) line)))
   \<and> (extractUser line = Inl OutOfRange) = (length line < userStart line)
   \<and> (classify libc authUser banIP line s = Inl OutOfRange) = (length line < userStart line)
   \<and> (\<exists>r. classify libc authUser banIP line s = Inr r) = (userStart line \<le> length line)
   \<and> (\<exists>s'. dataLoop libc authUser banIP is s = Inr s')
       = (\<forall>line \<in> set (takeWhile (\<lambda>line. line \<noteq> []) is). userStart line \<le> length line)"
proof -
  have a: "find line ''sshd'' = None \<longrightarrow>
      userStart line = 4
      \<and> extractUser line
          = (if length line < 4 then Inl OutOfRange else Inr (take 5 (drop 4 line)))"
    by (simp add: userStart_None extractUser_def substr_def)
  have b: "\<forall>n. find line ''sshd'' = Some n \<and> n < 2 ^ 31 \<longrightarrow> userStart line = n + 5"
    using userStart_Some by blast
  have c: "(\<exists>r. classify libc authUser banIP line s = Inr r) = (userStart line \<le> length line)"
  proof (cases "classify libc authUser banIP line s")
    case (Inl e)
    then show ?thesis using classify_Inl_iff [of libc authUser banIP line s e] by simp
  next
    case (Inr r)
    then show ?thesis using classify_Inl_iff [of libc authUser banIP line s OutOfRange] by simp
  qed
  have d: "userStart line \<le> length line \<longrightarrow>
        extractUser line = Inr (take 5 (drop (userStart line) line))"
    by (simp add: extractUser_Inr)
  note e = extractUser_Inl [of line OutOfRange]
  note f = classify_Inl_iff [of libc authUser banIP line s OutOfRange]
  note g = dataLoop_total [of libc authUser banIP "is" s]
  from a b d e f c g show ?thesis by (intro conjI)
qed

text \<open>The theorem at a line without \<open>sshd\<close> and at a line of the log.\<close>

theorem user_extraction_witness:
  "find ''bob'' ''sshd'' = None \<and> userStart ''bob'' = 4
   \<and> length ''bob'' < userStart ''bob'' \<and> extractUser ''bob'' = Inl OutOfRange
   \<and> find line0 ''sshd'' = Some 15 \<and> (15::nat) < 2 ^ 31 \<and> userStart line0 = 15 + 5
   \<and> userStart line0 \<le> length line0 \<and> extractUser line0 = Inr ''12345''"
proof -
  have h1: "find ''bob'' ''sshd'' = None" by code_simp
  have f: "find line0 ''sshd'' = Some 15" by code_simp
  have h2: "find line0 ''sshd'' = Some 15 \<and> (15::nat) < 2 ^ 31" using f by simp
  note t1 = user_extraction [of "''bob''" dayClock "[]" "[]" init "[]"]
  note t2 = user_extraction [of line0 dayClock "[]" "[]" init "[]"]
  from t1 h1 have b: "userStart ''bob'' = 4 \<and> extractUser ''bob'' = Inl OutOfRange" by simp
  from t2 h2 have s: "userStart line0 = 15 + 5" by blast
  then have l: "userStart line0 \<le> length line0" by (simp add: line0_def)
  with t2 have "extractUser line0 = Inr (take 5 (drop (userStart line0) line0))" by blast
  then have e: "extractUser line0 = Inr ''12345''" unfolding s by (simp add: line0_def)
  from b h1 h2 s l e show ?thesis by simp
qed

subsection \<open>C7: the counters and the summary\<close>

text \<open>
  Claim C7. After the header, the counter of lines is the number of non-empty data lines
  consumed and the counter of hacking attempts is the number of lines classified as
  banned, already flagged or breaching the frequency rule: after each classified line,
  and in the variables that \<open>process\<close> ends with when it reaches the end of the stream.
  The output is then the message of each classified line, in order, followed by exactly
  one summary line with those two counters.
\<close>

theorem counters_and_summary:
  "(\<forall>k < length (trace libc authUser banIP (skipHeader is) init).
      map lineOf (take (Suc k) (trace libc authUser banIP (skipHeader is) init))
        = take (Suc k) (dataLines is)
      \<and> lineCount_v (varsOf (trace libc authUser banIP (skipHeader is) init ! k)) = int (Suc k)
      \<and> hackAtt_v (varsOf (trace libc authUser banIP (skipHeader is) init ! k))
          = int (length (filter (\<lambda>r. isHacking (outcomeOf r))
                           (take (Suc k) (trace libc authUser banIP (skipHeader is) init)))))
   \<and> (\<forall>s. process libc authUser banIP is = Inr s \<longrightarrow>
         map lineOf (trace libc authUser banIP (skipHeader is) init) = dataLines is
         \<and> lineCount_v s = int (length (dataLines is))
         \<and> hackAtt_v s = int (length (filter (\<lambda>r. isHacking (outcomeOf r))
                                        (trace libc authUser banIP (skipHeader is) init)))
         \<and> os_v s = concat (map (\<lambda>r. report (lineOf r) (outcomeOf r))
                              (trace libc authUser banIP (skipHeader is) init))
                     @ summary (lineCount_v s) (hackAtt_v s))"
proof (intro conjI allI impI)
  fix k
  assume k: "k < length (trace libc authUser banIP (skipHeader is) init)"
  have "map lineOf (take (Suc k) (trace libc authUser banIP (skipHeader is) init))
        = take (Suc k) (map lineOf (trace libc authUser banIP (skipHeader is) init))"
    by (simp add: take_map)
  also have "\<dots> = take (Suc k) (dataLines is)"
    using k by (subst trace_lines) (simp add: dataLines_def min_def)
  finally show "map lineOf (take (Suc k) (trace libc authUser banIP (skipHeader is) init))
        = take (Suc k) (dataLines is)" .
  from trace_counts [OF k]
  show "lineCount_v (varsOf (trace libc authUser banIP (skipHeader is) init ! k)) = int (Suc k)"
    and "hackAtt_v (varsOf (trace libc authUser banIP (skipHeader is) init ! k))
          = int (length (filter (\<lambda>r. isHacking (outcomeOf r))
                           (take (Suc k) (trace libc authUser banIP (skipHeader is) init))))"
    by (simp_all add: init_def)
next
  fix s
  assume p: "process libc authUser banIP is = Inr s"
  then obtain s' where d: "dataLoop libc authUser banIP (skipHeader is) init = Inr s'"
    and s: "s = s'\<lparr>os_v := fst (processHelper (os_v s') 3 (user_v s') (hackAtt_v s') (lineCount_v s'))\<rparr>"
    by (auto simp: process_def split: sum.splits)
  note c = dataLoop_counts [OF d]
  from c show "map lineOf (trace libc authUser banIP (skipHeader is) init) = dataLines is"
    by (simp add: dataLines_def)
  from c s show l: "lineCount_v s = int (length (dataLines is))"
    by (simp add: dataLines_def init_def)
  from c s show h: "hackAtt_v s = int (length (filter (\<lambda>r. isHacking (outcomeOf r))
                                        (trace libc authUser banIP (skipHeader is) init)))"
    by (simp add: init_def)
  have "os_v s = os_v s' @ summary (lineCount_v s') (hackAtt_v s')"
    by (simp add: s processHelper_def summary_def)
  moreover have "lineCount_v s' = lineCount_v s" "hackAtt_v s' = hackAtt_v s" by (simp_all add: s)
  ultimately show "os_v s = concat (map (\<lambda>r. report (lineOf r) (outcomeOf r))
                              (trace libc authUser banIP (skipHeader is) init))
                     @ summary (lineCount_v s) (hackAtt_v s)"
    using c by (simp add: init_def)
qed

text \<open>The theorem at a stream with a header of two lines, five data lines (one breach
  of the frequency rule, one banned address) and an empty line before more text.\<close>

theorem counters_and_summary_witness:
  "process dayClock [] [(''10.0.0.1'', True)]
     [''HTTP/1.1 200 OK'' @ [CHR 0x0D], [CHR 0x0D], line0, line5, line10, line10, lineBan, [], line0]
   = Inr \<lparr>flagged_v = [(''12345'', False)], log_v = [(''12345'', [5, 10, 10])],
           lineCount_v = 5, hackAtt_v = 2, user_v = ''12345'',
           os_v = ''Hacking due to frequency. Line: '' @ line10 @ [CHR 0x0A]
                  @ ''Hacking due to banned IP. Line: '' @ lineBan @ [CHR 0x0A]
                  @ ''Processed 5 lines. Found 2 possible hacking attempts.'' @ [CHR 0x0A]\<rparr>
   \<and> int (length (dataLines
       [''HTTP/1.1 200 OK'' @ [CHR 0x0D], [CHR 0x0D], line0, line5, line10, line10, lineBan, [],
        line0])) = 5"
proof -
  let ?is = "[''HTTP/1.1 200 OK'' @ [CHR 0x0D], [CHR 0x0D], line0, line5, line10, line10,
              lineBan, [], line0]"
  let ?s = "\<lparr>flagged_v = [(''12345'', False)], log_v = [(''12345'', [5, 10, 10])],
           lineCount_v = 5, hackAtt_v = 2, user_v = ''12345'',
           os_v = ''Hacking due to frequency. Line: '' @ line10 @ [CHR 0x0A]
                  @ ''Hacking due to banned IP. Line: '' @ lineBan @ [CHR 0x0A]
                  @ ''Processed 5 lines. Found 2 possible hacking attempts.'' @ [CHR 0x0A]\<rparr>"
  have h: "process dayClock [] [(''10.0.0.1'', True)] ?is = Inr ?s"
    by code_simp
  from counters_and_summary [of dayClock "[]" "[(''10.0.0.1'', True)]" ?is] h
  have "lineCount_v ?s = int (length (dataLines ?is))" by blast
  then have "int (length (dataLines ?is)) = 5" by simp
  with h show ?thesis by blast
qed

subsection \<open>C1: three failed logins within the window\<close>




subsection \<open>C2: a breach does not flag the user\<close>

text \<open>
  Claim C2 says that a frequency breach sets the flag of the user and that every later
  line of the user is classified as already flagged. The assignment that would set the
  flag is commented out: after the breach on the fourth line the flag of the user is
  \<open>false\<close>, and a fifth line 89 seconds later is put to the frequency rule again and is
  benign.
\<close>

theorem flag_monotonicity_counterexample:
  "map outcomeOf (trace dayClock [] [] [line0, line5, line10, line10, line99] init)
     = [Benign, Benign, Benign, FrequencyBreach, Benign]
   \<and> map (\<lambda>r. map_of (flagged_v (varsOf r)) ''12345'')
         (trace dayClock [] [] [line0, line5, line10, line10, line99] init)
     = [Some False, Some False, Some False, Some False, Some False]"
  by code_simp

text \<open>
  Claim C2, amended. Once a line of a user has been classified as a frequency breach,
  the flag of that user is \<open>false\<close> and stays \<open>false\<close>, and every later line of that
  user that is neither authorized nor banned is decided by the frequency rule again: it
  is a frequency breach if \<open>checkLog\<close> says so on the history stored then, and benign
  otherwise.
\<close>

theorem breach_does_not_flag:
  assumes "noTrue (flagged_v s)"
    and "classify libc authUser banIP line s = Inr (FrequencyBreach, s1)"
    and "dataLoop libc authUser banIP ls s1 = Inr s2"
    and "extractUser l = Inr (user_v s1)"
    and "\<not> isAuth l authUser" and "\<not> isBand l banIP"
  shows "map_of (flagged_v s1) (user_v s1) = Some False
         \<and> map_of (flagged_v s2) (user_v s1) = Some False
         \<and> (\<exists>s3. classify libc authUser banIP l s2
                   = Inr (if fst (checkLog libc l (log_v s2) (user_v s1))
                          then FrequencyBreach else Benign, s3)
                \<and> log_v s3 = snd (checkLog libc l (log_v s2) (user_v s1))
                \<and> map_of (flagged_v s3) (user_v s1) = Some False)"
proof -
  have f1: "map_of (flagged_v s1) (user_v s1) = Some False"
    using classify_breach_flag [OF assms(2,1)] .
  have f2: "map_of (flagged_v s2) (user_v s1) = Some False"
    using dataLoop_keeps_false [OF assms(3) f1] .
  have n1: "noTrue (flagged_v s1)" using classify_noTrue [OF assms(2,1)] by simp
  have n2: "noTrue (flagged_v s2)" using dataLoop_noTrue [OF assms(3) n1] .
  from classify_frequency [OF assms(4-6) n2, of libc]
  obtain s3 where c: "classify libc authUser banIP l s2
                   = Inr (if fst (checkLog libc l (log_v s2) (user_v s1))
                          then FrequencyBreach else Benign, s3)"
    and g: "log_v s3 = snd (checkLog libc l (log_v s2) (user_v s1))" by blast
  have f3: "map_of (flagged_v s3) (user_v s1) = Some False"
    using classify_keeps_false [OF c f2] .
  from f1 f2 c g f3 show ?thesis by blast
qed

text \<open>The theorem at the breach on the fourth line, followed by a line 89 seconds
  later.\<close>

theorem breach_does_not_flag_witness:
  "noTrue [(''12345'', False)]
   \<and> classify dayClock [] [] line10
        \<lparr>flagged_v = [(''12345'', False)], log_v = [(''12345'', [0, 5, 10])],
         lineCount_v = 3, hackAtt_v = 0, user_v = ''12345'', os_v = []\<rparr>
      = Inr (FrequencyBreach,
        \<lparr>flagged_v = [(''12345'', False)], log_v = [(''12345'', [5, 10, 10])],
         lineCount_v = 4, hackAtt_v = 1, user_v = ''12345'',
         os_v = ''Hacking due to frequency. Line: '' @ line10 @ [CHR 0x0A]\<rparr>)
   \<and> extractUser line99 = Inr ''12345'' \<and> \<not> isAuth line99 [] \<and> \<not> isBand line99 []
   \<and> \<not> fst (checkLog dayClock line99 [(''12345'', [5, 10, 10])] ''12345'')
   \<and> map_sum id fst
        (classify dayClock [] [] line99
          \<lparr>flagged_v = [(''12345'', False)], log_v = [(''12345'', [5, 10, 10])],
           lineCount_v = 4, hackAtt_v = 1, user_v = ''12345'',
           os_v = ''Hacking due to frequency. Line: '' @ line10 @ [CHR 0x0A]\<rparr>)
      = Inr Benign"
proof -
  let ?s = "\<lparr>flagged_v = [(''12345'', False)], log_v = [(''12345'', [0, 5, 10])],
         lineCount_v = 3, hackAtt_v = 0, user_v = ''12345'', os_v = []\<rparr>"
  let ?s1 = "\<lparr>flagged_v = [(''12345'', False)], log_v = [(''12345'', [5, 10, 10])],
         lineCount_v = 4, hackAtt_v = 1, user_v = ''12345'',
         os_v = ''Hacking due to frequency. Line: '' @ line10 @ [CHR 0x0A]\<rparr>"
  have h1: "noTrue (flagged_v ?s)" by (simp add: noTrue_def)
  have h2: "classify dayClock [] [] line10 ?s = Inr (FrequencyBreach, ?s1)" by code_simp
  have h3: "dataLoop dayClock [] [] [] ?s1 = Inr ?s1" by simp
  have h4: "extractUser line99 = Inr (user_v ?s1)" by code_simp
  have h5: "\<not> isAuth line99 []" by (simp add: isAuth_def)
  have h6: "\<not> isBand line99 []" by (simp add: isBand_def)
  have k: "\<not> fst (checkLog dayClock line99 [(''12345'', [5, 10, 10])] ''12345'')"
    by code_simp
  from breach_does_not_flag [OF h1 h2 h3 h4 h5 h6]
  obtain s3 where "classify dayClock [] [] line99 ?s1
                   = Inr (if fst (checkLog dayClock line99 (log_v ?s1) (user_v ?s1))
                          then FrequencyBreach else Benign, s3)" by blast
  with k have "map_sum id fst (classify dayClock [] [] line99 ?s1) = Inr Benign" by simp
  with h1 h2 h4 h5 h6 k show ?thesis by simp
qed

subsection \<open>C8: the time stamp of a line\<close>



end
